theory Spec2Isabelle
  imports Complex_Main
begin

section \<open>Storage quota and reclamation engine (utils/storageManager, controllers/storageController)\<close>

text \<open>
  The development embeds the storage manager of the manuscript processor: usage accounting
  over the GridFS bucket, the admission check for uploads, complete deletion of a file
  document, the two-phase automatic cleanup, the orphan scan, and the two controller
  handlers that list the oldest files and delete files in bulk.

  Numbers. Byte counts are natural numbers. JavaScript numbers that hold fractions
  (percentages, the target size) are exact rationals here: the model does not round to
  double precision. With the constants of the source the products
  \<open>0.95 * 100\<close>, \<open>0.90 * 100\<close> and \<open>0.85 * 100\<close> are the doubles 95, 90 and 85, and
  \<open>totalSize / 2^29 * 100\<close> is exact for every byte count below \<open>2^46\<close>, so the
  comparisons of the source and of the model agree there.

  The database. The bucket, the \<open>File\<close> model and \<open>deleteFromGridFS\<close> live outside
  the files at hand; they are modelled below as operations on one store value. An
  operation of the database can throw: every one when the connection is down, the deletion
  of a blob that the bucket does not hold, and the deletion of a single document that the
  record store rejects. Every \<open>try\<close>/\<open>catch\<close> of the source is a branch of the model.

  The clock. The cleanup reads the clock once, to compute the date thirty calendar days
  back; that date is an input of the model.
\<close>

subsection \<open>Data model\<close>

datatype error = StoreUnavailable | BlobNotFound | WriteFailed

datatype file_status = Uploaded | Processing | Completed | Failed

datatype storage_status = Critical | High | Warning | Normal

text \<open>A GridFS file document: \<open>_id\<close> and \<open>length\<close> (a missing length reads as 0).\<close>

record gridfs_file =
  g_id :: nat
  g_length :: nat

text \<open>An entry of \<open>file.outputFiles\<close>.\<close>

record output_file =
  o_fileName :: string
  o_fileSize :: nat
  gridfsFileId :: "nat option"
  storedInGridFS :: bool

text \<open>A \<open>File\<close> document. Times are milliseconds since the epoch.\<close>

record file_doc =
  f_id :: nat
  originalName :: string
  status :: file_status
  fileSize :: nat
  gridfsInputFileId :: "nat option"
  outputFiles :: "output_file list"
  createdAt :: int
  processingStartedAt :: "int option"

text \<open>
  The database: the documents of the bucket, the documents of the \<open>File\<close> collection,
  whether the connection is up, and the ids of the documents whose \<open>deleteOne\<close> the
  record store rejects with a write error while the connection stays up. The connection
  and the rejected ids do not change while one operation runs.
\<close>

record store =
  blobs :: "gridfs_file list"
  files :: "file_doc list"
  reachable :: bool
  delete_fails :: "nat list"

text \<open>\<open>STORAGE_LIMITS\<close>: the module's configuration object, passed to every function.\<close>

record limits =
  MAX_STORAGE :: nat
  WARNING_THRESHOLD :: rat
  CLEANUP_THRESHOLD :: rat
  CRITICAL_THRESHOLD :: rat
  TARGET_AFTER_CLEANUP :: rat

definition STORAGE_LIMITS :: limits where
  "STORAGE_LIMITS =
     \<lparr>MAX_STORAGE = 512 * 1024 * 1024,
      WARNING_THRESHOLD = 85 / 100,
      CLEANUP_THRESHOLD = 90 / 100,
      CRITICAL_THRESHOLD = 95 / 100,
      TARGET_AFTER_CLEANUP = 70 / 100\<rparr>"

subsection \<open>Database operations\<close>

text \<open>\<open>bucket.find({}).toArray()\<close>: every document of the bucket, or a failure.\<close>

definition bucket_find :: "store \<Rightarrow> error + gridfs_file list" where
  "bucket_find s = (if reachable s then Inr (blobs s) else Inl StoreUnavailable)"

text \<open>\<open>File.find(...)\<close>: every document of the collection, in stored order, or a failure.\<close>

definition File_find :: "store \<Rightarrow> error + file_doc list" where
  "File_find s = (if reachable s then Inr (files s) else Inl StoreUnavailable)"

text \<open>
  Modelled from the spec: \<open>deleteFromGridFS\<close> of \<open>utils/gridfs\<close>, which is not among the
  source files. The blob store adapter's \<open>delete(blobId) -> void | NotFound\<close>: deleting
  an id that the bucket holds removes it, deleting any other id fails.
\<close>

definition deleteFromGridFS :: "store \<Rightarrow> nat \<Rightarrow> error + store" where
  "deleteFromGridFS s i =
     (if \<not> reachable s then Inl StoreUnavailable
      else if i \<in> g_id ` set (blobs s)
           then Inr (s\<lparr>blobs := filter (\<lambda>b. g_id b \<noteq> i) (blobs s)\<rparr>)
           else Inl BlobNotFound)"

text \<open>
  \<open>file.deleteOne()\<close>: removes the document with the file's \<open>_id\<close>, or throws: for
  every document when the connection is down, for a single document when the record store
  rejects its deletion.
\<close>

definition deleteOne :: "store \<Rightarrow> file_doc \<Rightarrow> error + store" where
  "deleteOne s f =
     (if \<not> reachable s then Inl StoreUnavailable
      else if f_id f \<in> set (delete_fails s) then Inl WriteFailed
      else Inr (s\<lparr>files := filter (\<lambda>d. f_id d \<noteq> f_id f) (files s)\<rparr>))"


subsection \<open>Usage accounting\<close>

text \<open>
  \<open>x.toFixed(2)\<close> read back as a number: the integer \<open>n\<close> with \<open>n / 100\<close> closest to
  \<open>x\<close>, the larger one on a tie; a negative argument is rounded on its absolute value.
\<close>

definition toFixed2 :: "rat \<Rightarrow> rat" where
  "toFixed2 x =
     (if x < 0 then - (of_int \<lfloor>(- x) * 100 + 1 / 2\<rfloor> / 100)
      else of_int \<lfloor>x * 100 + 1 / 2\<rfloor> / 100)"

definition getStorageStatus :: "limits \<Rightarrow> rat \<Rightarrow> storage_status" where
  "getStorageStatus L usagePercent =
     (if usagePercent \<ge> CRITICAL_THRESHOLD L * 100 then Critical
      else if usagePercent \<ge> CLEANUP_THRESHOLD L * 100 then High
      else if usagePercent \<ge> WARNING_THRESHOLD L * 100 then Warning
      else Normal)"

text \<open>
  The statistics object. The fields that the source formats with \<open>toFixed(2)\<close> hold the
  number that the string denotes.
\<close>

record stats =
  totalSize :: nat
  totalSizeMB :: rat
  maxStorageMB :: rat
  usagePercent :: rat
  fileCount :: nat
  available :: int
  availableMB :: rat
  st_status :: storage_status

definition usage_percent :: "limits \<Rightarrow> nat \<Rightarrow> rat" where
  "usage_percent L tot = (of_nat tot / of_nat (MAX_STORAGE L)) * 100"

definition getStorageStats :: "limits \<Rightarrow> store \<Rightarrow> error + stats" where
  "getStorageStats L s =
     (case bucket_find s of
        Inl e \<Rightarrow> Inl e
      | Inr fs \<Rightarrow>
          (let tot = sum_list (map g_length fs);
               pct = usage_percent L tot
           in Inr \<lparr>totalSize = tot,
                   totalSizeMB = toFixed2 (of_nat tot / (1024 * 1024)),
                   maxStorageMB = toFixed2 (of_nat (MAX_STORAGE L) / (1024 * 1024)),
                   usagePercent = toFixed2 pct,
                   fileCount = length fs,
                   available = int (MAX_STORAGE L) - int tot,
                   availableMB =
                     toFixed2 ((of_nat (MAX_STORAGE L) - of_nat tot) / (1024 * 1024)),
                   st_status = getStorageStatus L pct\<rparr>))"

subsection \<open>Admission check\<close>

text \<open>
  The object that \<open>checkStorageAvailability\<close> returns; a field that a branch leaves out
  is \<open>None\<close>. The reasons are the three messages of the source.
\<close>

datatype reason = QuotaCritical | ExceedsAvailable | StorageHigh

record availability =
  canUpload :: bool
  shouldCleanup :: "bool option"
  a_reason :: "reason option"
  a_stats :: "stats option"
  a_error :: "error option"

definition checkStorageAvailability :: "limits \<Rightarrow> store \<Rightarrow> nat \<Rightarrow> availability" where
  "checkStorageAvailability L s upload =
     (case getStorageStats L s of
        Inl e \<Rightarrow>
          \<lparr>canUpload = True, shouldCleanup = Some False, a_reason = None,
           a_stats = None, a_error = Some e\<rparr>
      | Inr st \<Rightarrow>
          (let pct = usagePercent st in
           if pct \<ge> CRITICAL_THRESHOLD L * 100 then
             \<lparr>canUpload = False, shouldCleanup = None, a_reason = Some QuotaCritical,
              a_stats = Some st, a_error = None\<rparr>
           else
             (let projectedSize = totalSize st + upload;
                  projectedPercent = ((of_nat projectedSize / of_nat (MAX_STORAGE L)) * 100 :: rat)
              in if projectedPercent > 100 then
                   \<lparr>canUpload = False, shouldCleanup = None, a_reason = Some ExceedsAvailable,
                    a_stats = Some st, a_error = None\<rparr>
                 else if pct \<ge> CLEANUP_THRESHOLD L * 100 then
                   \<lparr>canUpload = True, shouldCleanup = Some True, a_reason = Some StorageHigh,
                    a_stats = Some st, a_error = None\<rparr>
                 else
                   \<lparr>canUpload = True, shouldCleanup = Some False, a_reason = None,
                    a_stats = Some st, a_error = None\<rparr>)))"

subsection \<open>Deleting a file document with its GridFS data\<close>

datatype blob_kind = InputBlob | OutputBlob

text \<open>The result object of \<open>deleteFileCompletely\<close>.\<close>

record deletion =
  fileId :: nat
  d_fileName :: string
  deletedSize :: nat
  deletedFiles :: "(blob_kind \<times> string) list"
  d_createdAt :: int

text \<open>
  The input part: when the document has an input reference, delete that blob; a failure
  is caught and leaves size and list as they were.
\<close>

definition delete_input ::
  "store \<Rightarrow> file_doc \<Rightarrow> store \<times> nat \<times> (blob_kind \<times> string) list" where
  "delete_input s f =
     (case gridfsInputFileId f of
        None \<Rightarrow> (s, 0, [])
      | Some i \<Rightarrow>
          (case deleteFromGridFS s i of
             Inl e \<Rightarrow> (s, 0, [])
           | Inr s' \<Rightarrow> (s', fileSize f, [(InputBlob, originalName f)])))"

text \<open>The loop over \<open>file.outputFiles\<close>, with \<open>deletedSize\<close> and \<open>deletedFiles\<close> threaded.\<close>

fun delete_outputs ::
  "store \<Rightarrow> output_file list \<Rightarrow> nat \<Rightarrow> (blob_kind \<times> string) list
   \<Rightarrow> store \<times> nat \<times> (blob_kind \<times> string) list" where
  "delete_outputs s [] sz dl = (s, sz, dl)"
| "delete_outputs s (out # outs) sz dl =
     (case (storedInGridFS out, gridfsFileId out) of
        (True, Some i) \<Rightarrow>
          (case deleteFromGridFS s i of
             Inl e \<Rightarrow> delete_outputs s outs sz dl
           | Inr s' \<Rightarrow>
               delete_outputs s' outs (sz + o_fileSize out) (dl @ [(OutputBlob, o_fileName out)]))
      | _ \<Rightarrow> delete_outputs s outs sz dl)"

text \<open>
  The function returns its result or the error it throws, and in both cases the database
  as it has become: when \<open>file.deleteOne()\<close> throws, the blobs deleted before stay
  deleted.
\<close>

definition deleteFileCompletely :: "store \<Rightarrow> file_doc \<Rightarrow> (error + deletion) \<times> store" where
  "deleteFileCompletely s f =
     (case delete_input s f of
        (s1, sz1, dl1) \<Rightarrow>
          (case delete_outputs s1 (outputFiles f) sz1 dl1 of
             (s2, sz2, dl2) \<Rightarrow>
               (case deleteOne s2 f of
                  Inl e \<Rightarrow> (Inl e, s2)
                | Inr s3 \<Rightarrow>
                    (Inr \<lparr>fileId = f_id f, d_fileName = originalName f, deletedSize = sz2,
                          deletedFiles = dl2, d_createdAt = createdAt f\<rparr>, s3))))"

text \<open>
  For stating what a deletion does: the blob ids whose deletion \<open>deleteFileCompletely\<close>
  attempts (the input id, then the id of every output entry that is flagged as stored and
  has an id), and whether the blob of the input or of an output entry is in the bucket.
\<close>

definition stored_output_id :: "output_file \<Rightarrow> nat option" where
  "stored_output_id out = (if storedInGridFS out then gridfsFileId out else None)"

definition attempted_ids :: "file_doc \<Rightarrow> nat list" where
  "attempted_ids f =
     (case gridfsInputFileId f of None \<Rightarrow> [] | Some i \<Rightarrow> [i])
     @ List.map_filter stored_output_id (outputFiles f)"




definition deletable :: "store \<Rightarrow> nat \<Rightarrow> bool" where
  "deletable s i \<longleftrightarrow> i \<notin> set (delete_fails s)"

subsection \<open>Cleanup candidates\<close>

text \<open>
  \<open>thirtyDaysAgo\<close> is the instant that the source reads from the clock and moves back by
  thirty days of the local calendar (\<open>setDate(getDate() - 30)\<close>). It is an input of the
  model: every property below holds for every value of it.
\<close>

text \<open>The \<open>$or\<close> filter; a null \<open>processingStartedAt\<close> matches no \<open>$lt\<close>.\<close>

definition is_candidate :: "int \<Rightarrow> file_doc \<Rightarrow> bool" where
  "is_candidate t f \<longleftrightarrow>
     status f = Failed
     \<or> (status f = Uploaded \<and> createdAt f < t)
     \<or> (status f = Processing \<and>
          (case processingStartedAt f of None \<Rightarrow> False | Some p \<Rightarrow> p < t))"

definition getCleanupCandidates :: "store \<Rightarrow> int \<Rightarrow> error + file_doc list" where
  "getCleanupCandidates s thirtyDaysAgo =
     (case File_find s of
        Inl e \<Rightarrow> Inl e
      | Inr fs \<Rightarrow> Inr (sort_key createdAt (filter (is_candidate thirtyDaysAgo) fs)))"

subsection \<open>Automatic cleanup\<close>

datatype cleanup_message = AlreadyBelowTarget | CleanupCompleted nat

text \<open>
  The result object of \<open>performAutoCleanup\<close>. The early return of the source has no
  \<open>freedSize\<close> and no \<open>freedSizeMB\<close> field: they are \<open>None\<close> there.
\<close>

record cleanup_result =
  success :: bool
  message :: cleanup_message
  initialStats :: stats
  finalStats :: stats
  c_deletedFiles :: "deletion list"
  freedSize :: "nat option"
  freedSizeMB :: "rat option"

text \<open>
  One \<open>for\<close> loop of the cleanup: stop when enough is freed, otherwise delete the next
  document; a deletion that throws is caught and the loop goes on.
\<close>

fun cleanup_loop ::
  "store \<Rightarrow> file_doc list \<Rightarrow> rat \<Rightarrow> nat \<Rightarrow> deletion list \<Rightarrow> store \<times> nat \<times> deletion list" where
  "cleanup_loop s [] sizeToFree freed dl = (s, freed, dl)"
| "cleanup_loop s (f # fs) sizeToFree freed dl =
     (if of_nat freed \<ge> sizeToFree then (s, freed, dl)
      else
        (case deleteFileCompletely s f of
           (Inl e, s') \<Rightarrow> cleanup_loop s' fs sizeToFree freed dl
         | (Inr r, s') \<Rightarrow> cleanup_loop s' fs sizeToFree (freed + deletedSize r) (dl @ [r])))"

text \<open>Phase 1: the loop over the cleanup candidates.\<close>

definition phase1 ::
  "store \<Rightarrow> int \<Rightarrow> rat \<Rightarrow> error + (store \<times> nat \<times> deletion list)" where
  "phase1 s thirtyDaysAgo sizeToFree =
     (case getCleanupCandidates s thirtyDaysAgo of
        Inl e \<Rightarrow> Inl e
      | Inr cleanupCandidates \<Rightarrow> Inr (cleanup_loop s cleanupCandidates sizeToFree 0 []))"

text \<open>Phase 2: when still short, the hundred oldest completed documents.\<close>

definition phase2 ::
  "store \<Rightarrow> rat \<Rightarrow> nat \<Rightarrow> deletion list \<Rightarrow> error + (store \<times> nat \<times> deletion list)" where
  "phase2 s sizeToFree freed dl =
     (if of_nat freed < sizeToFree then
        (case File_find s of
           Inl e \<Rightarrow> Inl e
         | Inr fs \<Rightarrow>
             (let oldFiles = take 100 (sort_key createdAt (filter (\<lambda>f. status f = Completed) fs))
              in Inr (cleanup_loop s oldFiles sizeToFree freed dl)))
      else Inr (s, freed, dl))"

text \<open>
  \<open>targetPercent\<close> is \<open>None\<close> when the caller passes \<open>undefined\<close>. The function
  throws only when a query fails, which needs the connection to be down and then happens
  before any deletion; so the error carries no store.
\<close>

definition performAutoCleanup ::
  "limits \<Rightarrow> store \<Rightarrow> int \<Rightarrow> rat option \<Rightarrow> error + (cleanup_result \<times> store)" where
  "performAutoCleanup L s thirtyDaysAgo target =
     (let targetPercent = (case target of None \<Rightarrow> TARGET_AFTER_CLEANUP L | Some t \<Rightarrow> t) in
      case getStorageStats L s of
        Inl e \<Rightarrow> Inl e
      | Inr initial \<Rightarrow>
          (let targetSize = of_nat (MAX_STORAGE L) * targetPercent;
               sizeToFree = of_nat (totalSize initial) - targetSize
           in if sizeToFree \<le> 0 then
                Inr (\<lparr>success = True, message = AlreadyBelowTarget, initialStats = initial,
                      finalStats = initial, c_deletedFiles = [], freedSize = None,
                      freedSizeMB = None\<rparr>, s)
              else
                (case phase1 s thirtyDaysAgo sizeToFree of
                   Inl e \<Rightarrow> Inl e
                 | Inr (s1, freed1, dl1) \<Rightarrow>
                     (case phase2 s1 sizeToFree freed1 dl1 of
                        Inl e \<Rightarrow> Inl e
                      | Inr (s2, freed2, dl2) \<Rightarrow>
                          (case getStorageStats L s2 of
                             Inl e \<Rightarrow> Inl e
                           | Inr final \<Rightarrow>
                               Inr (\<lparr>success = True, message = CleanupCompleted (length dl2),
                                     initialStats = initial, finalStats = final,
                                     c_deletedFiles = dl2, freedSize = Some freed2,
                                     freedSizeMB =
                                       Some (toFixed2 (of_nat freed2 / (1024 * 1024)))\<rparr>, s2))))))"

text \<open>
  For stating the order of the deletions: the bytes that a run has to free
  (\<open>sizeToFree\<close>), the ids of the documents that the candidate query selects and of the
  completed documents, and the condition that every deletion of a list happened while the
  bytes freed before it were below the need.
\<close>

definition bytes_to_free :: "limits \<Rightarrow> store \<Rightarrow> rat option \<Rightarrow> rat" where
  "bytes_to_free L s target =
     of_nat (sum_list (map g_length (blobs s)))
     - of_nat (MAX_STORAGE L) * (case target of None \<Rightarrow> TARGET_AFTER_CLEANUP L | Some t \<Rightarrow> t)"

definition candidate_ids :: "int \<Rightarrow> store \<Rightarrow> nat set" where
  "candidate_ids thirtyDaysAgo s = set (map f_id (filter (is_candidate thirtyDaysAgo) (files s)))"

definition completed_ids :: "store \<Rightarrow> nat set" where
  "completed_ids s = set (map f_id (filter (\<lambda>f. status f = Completed) (files s)))"

definition below_at_each :: "rat \<Rightarrow> nat \<Rightarrow> deletion list \<Rightarrow> bool" where
  "below_at_each need freed new \<longleftrightarrow>
     (\<forall>k < length new. of_nat (freed + sum_list (map deletedSize (take k new))) < need)"

subsection \<open>Orphan scan\<close>

text \<open>
  The ids that one document references: its input id and the id of every output entry
  that has one, whether or not the entry is flagged as stored.
\<close>

definition doc_refs :: "file_doc \<Rightarrow> nat list" where
  "doc_refs f =
     (case gridfsInputFileId f of None \<Rightarrow> [] | Some i \<Rightarrow> [i])
     @ List.map_filter gridfsFileId (outputFiles f)"

definition referencedIds :: "file_doc list \<Rightarrow> nat set" where
  "referencedIds dbFiles = set (concat (map doc_refs dbFiles))"

record orphan_result =
  or_success :: bool
  deletedCount :: nat
  or_freedSize :: nat
  or_freedSizeMB :: rat

text \<open>The loop over the orphans; a deletion that throws is caught and not counted.\<close>

fun orphan_loop :: "store \<Rightarrow> gridfs_file list \<Rightarrow> nat \<Rightarrow> nat \<Rightarrow> store \<times> nat \<times> nat" where
  "orphan_loop s [] cnt freed = (s, cnt, freed)"
| "orphan_loop s (orphan # rest) cnt freed =
     (case deleteFromGridFS s (g_id orphan) of
        Inl e \<Rightarrow> orphan_loop s rest cnt freed
      | Inr s' \<Rightarrow> orphan_loop s' rest (cnt + 1) (freed + g_length orphan))"

definition cleanupOrphanedGridFSFiles :: "store \<Rightarrow> error + (orphan_result \<times> store)" where
  "cleanupOrphanedGridFSFiles s =
     (case bucket_find s of
        Inl e \<Rightarrow> Inl e
      | Inr gridfsFiles \<Rightarrow>
          (case File_find s of
             Inl e \<Rightarrow> Inl e
           | Inr dbFiles \<Rightarrow>
               (let orphanedFiles =
                      filter (\<lambda>g. g_id g \<notin> referencedIds dbFiles) gridfsFiles
                in case orphan_loop s orphanedFiles 0 0 of
                     (s', cnt, freed) \<Rightarrow>
                       Inr (\<lparr>or_success = True, deletedCount = cnt, or_freedSize = freed,
                             or_freedSizeMB = toFixed2 (of_nat freed / (1024 * 1024))\<rparr>, s'))))"

subsection \<open>Oldest files\<close>











subsection \<open>Bulk deletion\<close>









subsection \<open>Example data\<close>

text \<open>
  A completed document with an input blob, a stored output whose blob is in the bucket, a
  stored output whose blob is already gone, and an output that is not stored in GridFS;
  and a store with five blobs, of which the document references blobs 2 and 4.
\<close>

definition example_doc :: file_doc where
  "example_doc =
     \<lparr>f_id = 7, originalName = ''a.pdf'', status = Completed, fileSize = 20,
      gridfsInputFileId = Some 2,
      outputFiles =
        [\<lparr>o_fileName = ''a.xml'', o_fileSize = 40, gridfsFileId = Some 4, storedInGridFS = True\<rparr>,
         \<lparr>o_fileName = ''a.docx'', o_fileSize = 70, gridfsFileId = Some 9, storedInGridFS = True\<rparr>,
         \<lparr>o_fileName = ''a.zip'', o_fileSize = 15, gridfsFileId = None, storedInGridFS = False\<rparr>],
      createdAt = 1000, processingStartedAt = Some 1001\<rparr>"

definition orphan_example :: store where
  "orphan_example =
     \<lparr>blobs = [\<lparr>g_id = 1, g_length = 10\<rparr>, \<lparr>g_id = 2, g_length = 20\<rparr>, \<lparr>g_id = 3, g_length = 30\<rparr>,
               \<lparr>g_id = 4, g_length = 40\<rparr>, \<lparr>g_id = 5, g_length = 50\<rparr>],
      files = [example_doc],
      reachable = True, delete_fails = []\<rparr>"

text \<open>A failed document, and a store that holds it next to the completed one.\<close>

definition failed_doc :: file_doc where
  "failed_doc =
     \<lparr>f_id = 8, originalName = ''b.epub'', status = Failed, fileSize = 50,
      gridfsInputFileId = Some 5, outputFiles = [], createdAt = 2000,
      processingStartedAt = Some 2001\<rparr>"

definition two_docs_example :: store where
  "two_docs_example =
     \<lparr>blobs = [\<lparr>g_id = 1, g_length = 10\<rparr>, \<lparr>g_id = 2, g_length = 20\<rparr>, \<lparr>g_id = 3, g_length = 30\<rparr>,
               \<lparr>g_id = 4, g_length = 40\<rparr>, \<lparr>g_id = 5, g_length = 50\<rparr>],
      files = [example_doc, failed_doc],
      reachable = True, delete_fails = []\<rparr>"

text \<open>The same store when the record store rejects the deletion of the failed document.\<close>

definition stuck_example :: store where
  "stuck_example = two_docs_example\<lparr>delete_fails := [8]\<rparr>"

text \<open>
  A cleanup of that store down to a target of 0 per cent; the failed document is a cleanup
  candidate for every value of \<open>thirtyDaysAgo\<close>.
\<close>

definition stuck_run :: "error + (cleanup_result \<times> store)" where
  "stuck_run = performAutoCleanup STORAGE_LIMITS stuck_example 0 (Some 0)"


text \<open>Limits with a capacity of 1000 bytes and the thresholds of the source.\<close>

definition small_limits :: limits where
  "small_limits =
     \<lparr>MAX_STORAGE = 1000, WARNING_THRESHOLD = 85 / 100, CLEANUP_THRESHOLD = 90 / 100,
      CRITICAL_THRESHOLD = 95 / 100, TARGET_AFTER_CLEANUP = 70 / 100\<rparr>"

section \<open>Properties\<close>

subsection \<open>Rounding\<close>

lemma toFixed2_ge_iff:
  assumes "0 \<le> x"
  shows "of_int k \<le> toFixed2 x * 100 \<longleftrightarrow> of_int k - 1 / 2 \<le> x * 100"
proof -
  have "of_int k \<le> (of_int \<lfloor>x * 100 + 1 / 2\<rfloor> :: rat) \<longleftrightarrow> of_int k \<le> x * 100 + 1 / 2"
    by (simp add: le_floor_iff)
  then show ?thesis using assms by (simp add: toFixed2_def) linarith
qed

lemma toFixed2_ge_numeral:
  assumes "0 \<le> x"
  shows "numeral k \<le> toFixed2 x \<longleftrightarrow> numeral k * 100 - 1 / 2 \<le> x * 100"
proof -
  have "numeral k \<le> toFixed2 x \<longleftrightarrow> (numeral k * 100 :: rat) \<le> toFixed2 x * 100"
    by linarith
  also have "\<dots> \<longleftrightarrow> of_int (numeral k * 100) \<le> toFixed2 x * 100"
    by simp
  also have "\<dots> \<longleftrightarrow> of_int (numeral k * 100) - 1 / 2 \<le> x * 100"
    using assms by (rule toFixed2_ge_iff)
  finally show ?thesis by simp
qed

subsection \<open>Usage status\<close>

lemma getStorageStatus_fraction:
  "getStorageStatus L (f * 100) =
     (if f \<ge> CRITICAL_THRESHOLD L then Critical
      else if f \<ge> CLEANUP_THRESHOLD L then High
      else if f \<ge> WARNING_THRESHOLD L then Warning
      else Normal)"
  by (simp add: getStorageStatus_def)

text \<open>
  C8. On a reachable store \<open>getStorageStats\<close> returns the sum of the blob lengths, and
  its status compares the usage fraction \<open>totalSize / MAX_STORAGE\<close> with the thresholds
  from the highest down: at or above the critical threshold it is critical, otherwise at
  or above the cleanup threshold high, otherwise at or above the warning threshold
  warning, otherwise normal.
\<close>

theorem getStorageStats_status:
  assumes "reachable s" and "0 < MAX_STORAGE L"
  shows "\<exists>st. getStorageStats L s = Inr st
           \<and> totalSize st = sum_list (map g_length (blobs s))
           \<and> st_status st =
               (let f = of_nat (totalSize st) / of_nat (MAX_STORAGE L) in
                if f \<ge> CRITICAL_THRESHOLD L then Critical
                else if f \<ge> CLEANUP_THRESHOLD L then High
                else if f \<ge> WARNING_THRESHOLD L then Warning
                else Normal)"
proof -
  have run: "\<exists>st. getStorageStats L s = Inr st
                \<and> totalSize st = sum_list (map g_length (blobs s))
                \<and> st_status st = getStorageStatus L (usage_percent L (totalSize st))"
    using assms by (simp add: getStorageStats_def bucket_find_def Let_def)
  have cmp: "getStorageStatus L (usage_percent L t) =
               (let f = of_nat t / of_nat (MAX_STORAGE L) in
                if f \<ge> CRITICAL_THRESHOLD L then Critical
                else if f \<ge> CLEANUP_THRESHOLD L then High
                else if f \<ge> WARNING_THRESHOLD L then Warning
                else Normal)" for t
    unfolding usage_percent_def Let_def by (rule getStorageStatus_fraction)
  show ?thesis using run unfolding cmp .
qed

theorem getStorageStats_status_witness:
  "reachable \<lparr>blobs = [\<lparr>g_id = 1, g_length = 400000000\<rparr>, \<lparr>g_id = 2, g_length = 90000000\<rparr>],
              files = [], reachable = True, delete_fails = []\<rparr>
   \<and> 0 < MAX_STORAGE STORAGE_LIMITS
   \<and> (\<exists>st. getStorageStats STORAGE_LIMITS
               \<lparr>blobs = [\<lparr>g_id = 1, g_length = 400000000\<rparr>, \<lparr>g_id = 2, g_length = 90000000\<rparr>],
                files = [], reachable = True, delete_fails = []\<rparr> = Inr st
            \<and> totalSize st = 490000000 \<and> st_status st = High)"
proof -
  let ?s = "\<lparr>blobs = [\<lparr>g_id = 1, g_length = 400000000\<rparr>, \<lparr>g_id = 2, g_length = 90000000\<rparr>],
             files = [], reachable = True, delete_fails = []\<rparr>"
  have r: "reachable ?s" by simp
  have m: "0 < MAX_STORAGE STORAGE_LIMITS" by (simp add: STORAGE_LIMITS_def)
  from getStorageStats_status [OF r m] obtain st where
    st: "getStorageStats STORAGE_LIMITS ?s = Inr st"
    and tot: "totalSize st = sum_list (map g_length (blobs ?s))"
    and stat: "st_status st =
               (let f = of_nat (totalSize st) / of_nat (MAX_STORAGE STORAGE_LIMITS) in
                if f \<ge> CRITICAL_THRESHOLD STORAGE_LIMITS then Critical
                else if f \<ge> CLEANUP_THRESHOLD STORAGE_LIMITS then High
                else if f \<ge> WARNING_THRESHOLD STORAGE_LIMITS then Warning
                else Normal)"
    by blast
  from tot have tot': "totalSize st = 490000000" by simp
  from stat have "st_status st = High"
    by (simp add: tot' Let_def STORAGE_LIMITS_def)
  with r m st tot' show ?thesis by blast
qed

subsection \<open>Admission check\<close>

text \<open>
  C4. When the usage computation fails with any error \<open>e\<close>, \<open>checkStorageAvailability\<close>
  does not fail: for every candidate size it returns \<open>canUpload = true\<close>,
  \<open>shouldCleanup = false\<close>, no reason, no statistics, and the error attached.
\<close>

theorem checkStorageAvailability_fails_open:
  assumes "getStorageStats L s = Inl e"
  shows "checkStorageAvailability L s n =
     \<lparr>canUpload = True, shouldCleanup = Some False, a_reason = None,
      a_stats = None, a_error = Some e\<rparr>"
  using assms by (simp add: checkStorageAvailability_def)

theorem checkStorageAvailability_fails_open_witness:
  "getStorageStats STORAGE_LIMITS \<lparr>blobs = [], files = [], reachable = False, delete_fails = []\<rparr>
     = Inl StoreUnavailable
   \<and> checkStorageAvailability STORAGE_LIMITS \<lparr>blobs = [], files = [], reachable = False, delete_fails = []\<rparr> 10 =
       \<lparr>canUpload = True, shouldCleanup = Some False, a_reason = None,
        a_stats = None, a_error = Some StoreUnavailable\<rparr>"
  using checkStorageAvailability_fails_open
    [of STORAGE_LIMITS "\<lparr>blobs = [], files = [], reachable = False, delete_fails = []\<rparr>" StoreUnavailable 10]
  by (simp add: getStorageStats_def bucket_find_def)

text \<open>
  The order of the tests on a capacity of 1000 bytes: 960 bytes in use deny any upload as
  critical; 500 bytes in use deny an upload of 600 bytes for lack of space; 900 bytes in
  use admit an upload of 50 bytes with the cleanup hint.
\<close>

lemma checkStorageAvailability_examples:
  "a_reason (checkStorageAvailability small_limits
      \<lparr>blobs = [\<lparr>g_id = 1, g_length = 960\<rparr>], files = [], reachable = True, delete_fails = []\<rparr> 10)
     = Some QuotaCritical"
  "a_reason (checkStorageAvailability small_limits
      \<lparr>blobs = [\<lparr>g_id = 1, g_length = 500\<rparr>], files = [], reachable = True, delete_fails = []\<rparr> 600)
     = Some ExceedsAvailable"
  "shouldCleanup (checkStorageAvailability small_limits
      \<lparr>blobs = [\<lparr>g_id = 1, g_length = 900\<rparr>], files = [], reachable = True, delete_fails = []\<rparr> 50)
     = Some True"
  "canUpload (checkStorageAvailability small_limits
      \<lparr>blobs = [\<lparr>g_id = 1, g_length = 900\<rparr>], files = [], reachable = True, delete_fails = []\<rparr> 50)"
  by (simp_all add: small_limits_def checkStorageAvailability_def getStorageStats_def
      bucket_find_def usage_percent_def getStorageStatus_def Let_def toFixed2_ge_numeral)

text \<open>
  C3. The admission check compares the usage percentage after it was rounded to two
  decimals. With 510010000 of 536870912 bytes in use (94.9968 per cent, below the
  critical 95 per cent) and a candidate of 10 bytes that fits, the rounded percentage is
  95.00: the upload is denied as quota critical, while the status of the same statistics
  object is high.
\<close>

theorem checkStorageAvailability_rounds_usage:
  "(let s = \<lparr>blobs = [\<lparr>g_id = 1, g_length = 510010000\<rparr>], files = [], reachable = True, delete_fails = []\<rparr>;
        r = checkStorageAvailability STORAGE_LIMITS s 10
    in canUpload r = False \<and> a_reason r = Some QuotaCritical
       \<and> st_status (the (a_stats r)) = High
       \<and> usage_percent STORAGE_LIMITS 510010000 < CRITICAL_THRESHOLD STORAGE_LIMITS * 100
       \<and> usage_percent STORAGE_LIMITS (510010000 + 10) \<le> 100)"
  by (simp add: checkStorageAvailability_def getStorageStats_def bucket_find_def STORAGE_LIMITS_def
      usage_percent_def getStorageStatus_def Let_def toFixed2_ge_numeral)

subsection \<open>Automatic cleanup below the target\<close>

text \<open>
  Already at or below the target: nothing is deleted, the store is unchanged, and the
  result is the early-return object.
\<close>

lemma performAutoCleanup_below_target:
  assumes "getStorageStats L s = Inr st"
    and "of_nat (totalSize st)
           \<le> of_nat (MAX_STORAGE L) * (case target of None \<Rightarrow> TARGET_AFTER_CLEANUP L | Some t \<Rightarrow> t)"
  shows "performAutoCleanup L s thirtyDaysAgo target =
           Inr (\<lparr>success = True, message = AlreadyBelowTarget, initialStats = st,
                 finalStats = st, c_deletedFiles = [], freedSize = None,
                 freedSizeMB = None\<rparr>, s)"
  using assms by (simp add: performAutoCleanup_def Let_def)

text \<open>
  C2. On the example store (150 bytes in use, far below the default target of 70 per cent)
  \<open>performAutoCleanup\<close> deletes nothing and leaves the store as it was, and the
  object it returns has no \<open>freedSize\<close> field: the early return does not report zero
  freed bytes.
\<close>

theorem performAutoCleanup_early_return_no_freedSize:
  "(case performAutoCleanup STORAGE_LIMITS orphan_example 0 None of
      Inl e \<Rightarrow> False
    | Inr (r, s') \<Rightarrow> c_deletedFiles r = [] \<and> s' = orphan_example \<and> freedSize r = None
                      \<and> freedSize r \<noteq> Some 0)"
  by (simp add: performAutoCleanup_def getStorageStats_def bucket_find_def Let_def
      STORAGE_LIMITS_def orphan_example_def)

subsection \<open>Orphan scan\<close>

lemma orphan_loop_frame:
  "orphan_loop s os c f = (s', c', f') \<Longrightarrow> files s' = files s \<and> reachable s' = reachable s"
proof (induction os arbitrary: s c f)
  case Nil
  then show ?case by simp
next
  case (Cons a os)
  then show ?case
    by (auto simp: deleteFromGridFS_def split: sum.splits if_splits)
qed

lemma orphan_loop_blobs:
  assumes "reachable s"
  shows "blobs (fst (orphan_loop s os c f)) = filter (\<lambda>b. g_id b \<notin> g_id ` set os) (blobs s)"
  using assms
proof (induction os arbitrary: s c f)
  case Nil
  then show ?case by simp
next
  case (Cons a os)
  show ?case
  proof (cases "g_id a \<in> g_id ` set (blobs s)")
    case True
    let ?s1 = "s\<lparr>blobs := filter (\<lambda>b. g_id b \<noteq> g_id a) (blobs s)\<rparr>"
    have d: "deleteFromGridFS s (g_id a) = Inr ?s1"
      using True Cons.prems by (simp add: deleteFromGridFS_def)
    have "reachable ?s1" using Cons.prems by simp
    from Cons.IH [OF this] show ?thesis
      by (simp add: d)
  next
    case False
    have d: "deleteFromGridFS s (g_id a) = Inl BlobNotFound"
      using False Cons.prems by (simp add: deleteFromGridFS_def)
    have "\<forall>b \<in> set (blobs s). g_id b \<noteq> g_id a"
      using False by (metis imageI)
    then have "filter (\<lambda>b. g_id b \<notin> g_id ` set (a # os)) (blobs s)
            = filter (\<lambda>b. g_id b \<notin> g_id ` set os) (blobs s)"
      by (intro filter_cong) auto
    with Cons.IH [OF Cons.prems] show ?thesis by (simp add: d)
  qed
qed

lemma orphan_loop_count:
  assumes "reachable s" and "distinct (map g_id os)" and "g_id ` set os \<subseteq> g_id ` set (blobs s)"
  shows "snd (orphan_loop s os c f) = (c + length os, f + sum_list (map g_length os))"
  using assms
proof (induction os arbitrary: s c f)
  case Nil
  then show ?case by simp
next
  case (Cons a os)
  let ?s1 = "s\<lparr>blobs := filter (\<lambda>b. g_id b \<noteq> g_id a) (blobs s)\<rparr>"
  have d: "deleteFromGridFS s (g_id a) = Inr ?s1"
    using Cons.prems by (simp add: deleteFromGridFS_def)
  have 1: "reachable ?s1" using Cons.prems by simp
  have 2: "distinct (map g_id os)" using Cons.prems by simp
  have 3: "g_id ` set os \<subseteq> g_id ` set (blobs ?s1)"
  proof
    fix i assume i: "i \<in> g_id ` set os"
    have "g_id a \<notin> g_id ` set os" using Cons.prems(2) by simp
    with i have "i \<noteq> g_id a" by blast
    moreover from i Cons.prems obtain b where "b \<in> set (blobs s)" "g_id b = i" by auto
    ultimately show "i \<in> g_id ` set (blobs ?s1)" by force
  qed
  from Cons.IH [OF 1 2 3] show ?case by (simp add: d)
qed


lemma cleanupOrphaned_total:
  assumes "reachable s"
  shows "\<exists>r s'. cleanupOrphanedGridFSFiles s = Inr (r, s')"
  using assms
  by (simp add: cleanupOrphanedGridFSFiles_def bucket_find_def File_find_def Let_def
      split: prod.splits)

lemma orphan_example_refs: "referencedIds (files orphan_example) = {2, 4, 9}"
  by (auto simp: referencedIds_def doc_refs_def orphan_example_def example_doc_def)

text \<open>
  C6. On a reachable store whose blob ids are distinct, the orphan scan succeeds; the blobs
  that remain are exactly those whose id some document references (as input or as any
  output), \<open>deletedCount\<close> is the number of blobs with no reference and \<open>freedSize\<close>
  the sum of their lengths; a second scan right after deletes nothing and leaves the store
  as it is.
\<close>

theorem cleanupOrphaned_exact:
  assumes "reachable s" and "distinct (map g_id (blobs s))"
  shows "\<exists>r s'. cleanupOrphanedGridFSFiles s = Inr (r, s')
           \<and> blobs s' = filter (\<lambda>g. g_id g \<in> referencedIds (files s)) (blobs s)
           \<and> deletedCount r = length (filter (\<lambda>g. g_id g \<notin> referencedIds (files s)) (blobs s))
           \<and> or_freedSize r
               = sum_list (map g_length (filter (\<lambda>g. g_id g \<notin> referencedIds (files s)) (blobs s)))
           \<and> (\<exists>r2. cleanupOrphanedGridFSFiles s' = Inr (r2, s') \<and> deletedCount r2 = 0)"
proof -
  let ?refs = "referencedIds (files s)"
  let ?orph = "filter (\<lambda>g. g_id g \<notin> ?refs) (blobs s)"
  obtain s' cnt freed where loop: "orphan_loop s ?orph 0 0 = (s', cnt, freed)"
    by (cases "orphan_loop s ?orph 0 0") auto
  have frame: "files s' = files s" "reachable s' = reachable s"
    using orphan_loop_frame [OF loop] by simp_all
  have dist: "distinct (map g_id ?orph)" using assms(2) by (rule distinct_map_filter)
  have sub: "g_id ` set ?orph \<subseteq> g_id ` set (blobs s)" by auto
  have "snd (orphan_loop s ?orph 0 0) = (0 + length ?orph, 0 + sum_list (map g_length ?orph))"
    by (rule orphan_loop_count [OF assms(1) dist sub])
  with loop have cnt: "cnt = length ?orph" and freed: "freed = sum_list (map g_length ?orph)"
    by simp_all
  have "blobs (fst (orphan_loop s ?orph 0 0)) = filter (\<lambda>b. g_id b \<notin> g_id ` set ?orph) (blobs s)"
    using assms(1) by (rule orphan_loop_blobs)
  also have "\<dots> = filter (\<lambda>g. g_id g \<in> ?refs) (blobs s)"
    by (rule filter_cong) force+
  finally have bl: "blobs s' = filter (\<lambda>g. g_id g \<in> ?refs) (blobs s)"
    using loop by simp
  have first: "cleanupOrphanedGridFSFiles s =
      Inr (\<lparr>or_success = True, deletedCount = cnt, or_freedSize = freed,
            or_freedSizeMB = toFixed2 (of_nat freed / (1024 * 1024))\<rparr>, s')"
    using assms(1) loop
    by (simp add: cleanupOrphanedGridFSFiles_def bucket_find_def File_find_def Let_def)
  have none: "filter (\<lambda>g. g_id g \<notin> referencedIds (files s')) (blobs s') = []"
    by (simp add: frame bl)
  have second: "cleanupOrphanedGridFSFiles s' =
      Inr (\<lparr>or_success = True, deletedCount = 0, or_freedSize = 0,
            or_freedSizeMB = toFixed2 (of_nat 0 / (1024 * 1024))\<rparr>, s')"
    using assms(1) frame none
    by (simp add: cleanupOrphanedGridFSFiles_def bucket_find_def File_find_def Let_def)
  show ?thesis
    using first second bl cnt freed by simp
qed

theorem cleanupOrphaned_exact_witness:
  "reachable orphan_example \<and> distinct (map g_id (blobs orphan_example))
   \<and> (\<exists>r s'. cleanupOrphanedGridFSFiles orphan_example = Inr (r, s')
         \<and> blobs s' = [\<lparr>g_id = 2, g_length = 20\<rparr>, \<lparr>g_id = 4, g_length = 40\<rparr>]
         \<and> length (blobs orphan_example) = 5
         \<and> deletedCount r = 3 \<and> or_freedSize r = 90
         \<and> (\<exists>r2. cleanupOrphanedGridFSFiles s' = Inr (r2, s') \<and> deletedCount r2 = 0))"
proof -
  have r: "reachable orphan_example" by (simp add: orphan_example_def)
  have d: "distinct (map g_id (blobs orphan_example))" by (simp add: orphan_example_def)
  have b: "blobs orphan_example =
     [\<lparr>g_id = 1, g_length = 10\<rparr>, \<lparr>g_id = 2, g_length = 20\<rparr>, \<lparr>g_id = 3, g_length = 30\<rparr>,
      \<lparr>g_id = 4, g_length = 40\<rparr>, \<lparr>g_id = 5, g_length = 50\<rparr>]"
    by (simp add: orphan_example_def)
  show ?thesis
    using r d cleanupOrphaned_exact [OF r d]
    by (simp add: orphan_example_refs b numeral_3_eq_3)
qed

text \<open>
  C9. The orphan scan does not touch the \<open>File\<close> collection: when it returns, the
  documents are the ones it started with.
\<close>

theorem cleanupOrphaned_keeps_files:
  assumes "cleanupOrphanedGridFSFiles s = Inr (r, s')"
  shows "files s' = files s"
  using assms
  by (auto simp: cleanupOrphanedGridFSFiles_def Let_def split: sum.splits prod.splits
      dest: orphan_loop_frame)

theorem cleanupOrphaned_keeps_files_witness:
  "\<exists>r s'. cleanupOrphanedGridFSFiles orphan_example = Inr (r, s')
          \<and> files s' = files orphan_example"
proof -
  have "reachable orphan_example" by (simp add: orphan_example_def)
  then obtain r s' where run: "cleanupOrphanedGridFSFiles orphan_example = Inr (r, s')"
    using cleanupOrphaned_total by blast
  from cleanupOrphaned_keeps_files [OF run] run show ?thesis by blast
qed

subsection \<open>Deleting a file document\<close>

lemma deleteFromGridFS_cases:
  assumes "reachable s"
  shows "deleteFromGridFS s i =
           (if i \<in> g_id ` set (blobs s)
            then Inr (s\<lparr>blobs := filter (\<lambda>b. g_id b \<noteq> i) (blobs s)\<rparr>)
            else Inl BlobNotFound)"
  using assms by (simp add: deleteFromGridFS_def)

lemma filter_absent_id:
  assumes "i \<notin> g_id ` set bs"
  shows "filter (\<lambda>b. g_id b \<noteq> i) bs = bs"
proof -
  have "\<forall>b \<in> set bs. g_id b \<noteq> i" using assms by (metis imageI)
  then show ?thesis by simp
qed

lemma filter_absent_id':
  assumes "i \<notin> g_id ` set bs"
  shows "filter (\<lambda>b. i \<noteq> g_id b) bs = bs"
proof -
  have "\<forall>b \<in> set bs. g_id b \<noteq> i" using assms by (metis imageI)
  then show ?thesis by (simp add: filter_id_conv) blast
qed

lemma filter_neq_commute: "filter (\<lambda>b. i \<noteq> g_id b) bs = filter (\<lambda>b. g_id b \<noteq> i) bs"
  by (rule filter_cong) auto

lemma delete_input_spec:
  assumes "reachable s" and "delete_input s f = (s1, sz, dl)"
  shows "reachable s1" and "files s1 = files s"
    and "delete_fails s1 = delete_fails s"
    and "blobs s1 = filter (\<lambda>b. g_id b \<notin> set_option (gridfsInputFileId f)) (blobs s)"
    and "sz = (case gridfsInputFileId f of None \<Rightarrow> 0
               | Some i \<Rightarrow> if i \<in> g_id ` set (blobs s) then fileSize f else 0)"
    and "set_option (gridfsInputFileId f) \<inter> g_id ` set (blobs s) = {} \<Longrightarrow> dl = []"
  using assms
  by (auto simp: delete_input_def deleteFromGridFS_cases filter_absent_id filter_absent_id'
      filter_neq_commute split: option.splits if_splits)


lemma delete_outputs_step:
  assumes "reachable s"
  shows "delete_outputs s (out # outs) sz dl =
     (case stored_output_id out of
        None \<Rightarrow> delete_outputs s outs sz dl
      | Some i \<Rightarrow>
          if i \<in> g_id ` set (blobs s)
          then delete_outputs (s\<lparr>blobs := filter (\<lambda>b. g_id b \<noteq> i) (blobs s)\<rparr>) outs
                 (sz + o_fileSize out) (dl @ [(OutputBlob, o_fileName out)])
          else delete_outputs s outs sz dl)"
  using assms
  by (simp add: stored_output_id_def deleteFromGridFS_cases split: option.splits bool.splits)

lemma delete_outputs_frame:
  assumes "reachable s" and "delete_outputs s outs sz dl = (s2, sz2, dl2)"
  shows "reachable s2 \<and> files s2 = files s \<and> delete_fails s2 = delete_fails s
         \<and> blobs s2 = filter (\<lambda>b. g_id b \<notin> set (List.map_filter stored_output_id outs)) (blobs s)
         \<and> sz \<le> sz2 \<and> sz2 \<le> sz + sum_list (map o_fileSize outs)"
  using assms
proof (induction outs arbitrary: s sz dl)
  case Nil
  then show ?case by simp
next
  case (Cons out outs)
  show ?case
  proof (cases "stored_output_id out")
    case None
    with Cons.prems have "delete_outputs s outs sz dl = (s2, sz2, dl2)"
      by (simp add: delete_outputs_step del: delete_outputs.simps)
    from Cons.IH [OF Cons.prems(1) this] None show ?thesis
      by simp
  next
    case (Some i)
    show ?thesis
    proof (cases "i \<in> g_id ` set (blobs s)")
      case True
      let ?s1 = "s\<lparr>blobs := filter (\<lambda>b. g_id b \<noteq> i) (blobs s)\<rparr>"
      have r1: "reachable ?s1" using Cons.prems(1) by simp
      have "delete_outputs ?s1 outs (sz + o_fileSize out) (dl @ [(OutputBlob, o_fileName out)])
              = (s2, sz2, dl2)"
        using Cons.prems Some True by (simp add: delete_outputs_step del: delete_outputs.simps)
      from Cons.IH [OF r1 this] Some show ?thesis
        by (simp add: filter_neq_commute conj_commute)
    next
      case False
      with Cons.prems Some have run: "delete_outputs s outs sz dl = (s2, sz2, dl2)"
        by (simp add: delete_outputs_step del: delete_outputs.simps)
      have "\<forall>b \<in> set (blobs s). g_id b \<noteq> i"
        using False by (metis imageI)
      then have "filter (\<lambda>b. g_id b \<noteq> i \<and> g_id b \<notin> set (List.map_filter stored_output_id outs))
                   (blobs s)
                 = filter (\<lambda>b. g_id b \<notin> set (List.map_filter stored_output_id outs)) (blobs s)"
        by (intro filter_cong) auto
      with Cons.IH [OF Cons.prems(1) run] Some show ?thesis by simp
    qed
  qed
qed







lemma deleteFileCompletely_runs:
  assumes "reachable s"
  shows "\<exists>res s'. deleteFileCompletely s f = (res, s')
           \<and> reachable s' \<and> delete_fails s' = delete_fails s
           \<and> blobs s' = filter (\<lambda>b. g_id b \<notin> set (attempted_ids f)) (blobs s)
           \<and> (f_id f \<notin> set (delete_fails s) \<longrightarrow>
                (\<exists>r. res = Inr r \<and> fileId r = f_id f \<and> d_createdAt r = createdAt f
                   \<and> deletedSize r \<le> fileSize f + sum_list (map o_fileSize (outputFiles f)))
                \<and> files s' = filter (\<lambda>d. f_id d \<noteq> f_id f) (files s))
           \<and> (f_id f \<in> set (delete_fails s) \<longrightarrow>
                res = Inl WriteFailed \<and> files s' = files s)"
proof -
  obtain s1 sz1 dl1 where i: "delete_input s f = (s1, sz1, dl1)"
    by (cases "delete_input s f") auto
  obtain s2 sz2 dl2 where o: "delete_outputs s1 (outputFiles f) sz1 dl1 = (s2, sz2, dl2)"
    by (cases "delete_outputs s1 (outputFiles f) sz1 dl1") auto
  note I = delete_input_spec [OF assms i]
  note O = delete_outputs_frame [OF I(1) o]
  have sz1: "sz1 \<le> fileSize f" using I(5) by (simp split: option.splits)
  have att: "x \<in> set (attempted_ids f) \<longleftrightarrow>
               x \<in> set_option (gridfsInputFileId f)
               \<or> x \<in> set (List.map_filter stored_output_id (outputFiles f))" for x
    by (auto simp: attempted_ids_def split: option.splits)
  from O have "blobs s2 =
      filter (\<lambda>b. g_id b \<notin> set (List.map_filter stored_output_id (outputFiles f))) (blobs s1)"
    by blast
  also have "\<dots> = filter (\<lambda>b. g_id b \<notin> set (attempted_ids f)) (blobs s)"
    unfolding I(4) filter_filter by (rule filter_cong) (auto simp: att)
  finally have bl: "blobs s2 = filter (\<lambda>b. g_id b \<notin> set (attempted_ids f)) (blobs s)" .
  from O I have fr: "reachable s2" "files s2 = files s" "delete_fails s2 = delete_fails s"
    and sz2: "sz2 \<le> sz1 + sum_list (map o_fileSize (outputFiles f))"
    by simp_all
  show ?thesis
  proof (cases "f_id f \<in> set (delete_fails s)")
    case True
    then have "deleteFileCompletely s f = (Inl WriteFailed, s2)"
      using i o fr by (simp add: deleteFileCompletely_def deleteOne_def)
    with True bl fr show ?thesis by simp
  next
    case False
    then have "deleteFileCompletely s f =
      (Inr \<lparr>fileId = f_id f, d_fileName = originalName f, deletedSize = sz2,
            deletedFiles = dl2, d_createdAt = createdAt f\<rparr>,
       s2\<lparr>files := filter (\<lambda>d. f_id d \<noteq> f_id f) (files s2)\<rparr>)"
      using i o fr by (simp add: deleteFileCompletely_def deleteOne_def)
    with False bl fr sz1 sz2 show ?thesis by simp
  qed
qed





subsection \<open>Bulk deletion\<close>


















lemma two_docs_facts:
  "reachable two_docs_example" "delete_fails two_docs_example = []"
  "files two_docs_example = [example_doc, failed_doc]"
  "blobs two_docs_example =
     [\<lparr>g_id = 1, g_length = 10\<rparr>, \<lparr>g_id = 2, g_length = 20\<rparr>, \<lparr>g_id = 3, g_length = 30\<rparr>,
      \<lparr>g_id = 4, g_length = 40\<rparr>, \<lparr>g_id = 5, g_length = 50\<rparr>]"
  "f_id example_doc = 7" "f_id failed_doc = 8"
  "attempted_ids example_doc = [2, 4, 9]" "attempted_ids failed_doc = [5]"
  by (simp_all add: two_docs_example_def example_doc_def failed_doc_def attempted_ids_def
      stored_output_id_def)

lemma stuck_facts:
  "reachable stuck_example" "delete_fails stuck_example = [8]"
  "files stuck_example = files two_docs_example"
  "blobs stuck_example = blobs two_docs_example"
  by (simp_all add: stuck_example_def two_docs_example_def)






subsection \<open>Oldest files\<close>




subsection \<open>Order of the two cleanup phases\<close>

lemma cleanup_loop_step:
  assumes "reachable s" and "\<not> of_nat freed \<ge> need"
  shows "\<exists>s1 dnew.
           cleanup_loop s (f # fs) need freed dl
             = cleanup_loop s1 fs need (freed + sum_list (map deletedSize dnew)) (dl @ dnew)
           \<and> reachable s1 \<and> delete_fails s1 = delete_fails s
           \<and> files s1 = filter (\<lambda>d. f_id d \<noteq> f_id f \<or> \<not> deletable s (f_id f)) (files s)
           \<and> map fileId dnew = filter (deletable s) [f_id f]"
proof -
  from deleteFileCompletely_runs [OF assms(1), of f] obtain res s1 where
    run: "deleteFileCompletely s f = (res, s1)" and r1: "reachable s1"
    and df: "delete_fails s1 = delete_fails s"
    and "blobs s1 = filter (\<lambda>b. g_id b \<notin> set (attempted_ids f)) (blobs s)"
    and ok: "f_id f \<notin> set (delete_fails s) \<longrightarrow>
                (\<exists>r. res = Inr r \<and> fileId r = f_id f \<and> d_createdAt r = createdAt f
                   \<and> deletedSize r \<le> fileSize f + sum_list (map o_fileSize (outputFiles f)))
                \<and> files s1 = filter (\<lambda>d. f_id d \<noteq> f_id f) (files s)"
    and bad: "f_id f \<in> set (delete_fails s) \<longrightarrow> res = Inl WriteFailed \<and> files s1 = files s"
    by (elim exE conjE) (rule that, assumption+)
  show ?thesis
  proof (cases "deletable s (f_id f)")
    case True
    with ok obtain r where res: "res = Inr r" and ri: "fileId r = f_id f"
      and fs: "files s1 = filter (\<lambda>d. f_id d \<noteq> f_id f) (files s)"
      by (auto simp: deletable_def)
    have "cleanup_loop s (f # fs) need freed dl
            = cleanup_loop s1 fs need (freed + sum_list (map deletedSize [r])) (dl @ [r])"
      using assms(2) run res by simp
    with True r1 df fs ri show ?thesis
      by (intro exI [of _ s1] exI [of _ "[r]"]) simp
  next
    case False
    with bad have res: "res = Inl WriteFailed" and fs: "files s1 = files s"
      by (auto simp: deletable_def)
    have "cleanup_loop s (f # fs) need freed dl
            = cleanup_loop s1 fs need (freed + sum_list (map deletedSize [])) (dl @ [])"
      using assms(2) run res by simp
    with False r1 df fs show ?thesis
      by (intro exI [of _ s1] exI [of _ "[]"]) simp
  qed
qed

lemma below_at_each_Nil: "below_at_each need freed []"
  by (simp add: below_at_each_def)

lemma below_at_each_append:
  assumes "below_at_each need freed xs"
    and "below_at_each need (freed + sum_list (map deletedSize xs)) ys"
  shows "below_at_each need freed (xs @ ys)"
  unfolding below_at_each_def
proof (intro allI impI)
  fix k assume k: "k < length (xs @ ys)"
  show "of_nat (freed + sum_list (map deletedSize (take k (xs @ ys)))) < need"
  proof (cases "k < length xs")
    case True
    with assms(1) show ?thesis by (simp add: below_at_each_def)
  next
    case False
    with k have "k - length xs < length ys" by simp
    with assms(2) have "of_nat (freed + sum_list (map deletedSize xs)
                          + sum_list (map deletedSize (take (k - length xs) ys))) < need"
      by (simp add: below_at_each_def)
    with False show ?thesis by (simp add: add.assoc)
  qed
qed

lemma below_at_each_single:
  assumes "\<not> of_nat freed \<ge> need" and "length xs \<le> 1"
  shows "below_at_each need freed xs"
  using assms by (cases xs) (auto simp: below_at_each_def)

lemma cleanup_loop_spec:
  assumes "reachable s"
  shows "\<exists>k new s'. k \<le> length fs
           \<and> cleanup_loop s fs need freed dl = (s', freed + sum_list (map deletedSize new), dl @ new)
           \<and> map fileId new = filter (deletable s) (map f_id (take k fs))
           \<and> reachable s' \<and> delete_fails s' = delete_fails s
           \<and> files s' = filter (\<lambda>d. f_id d \<notin> f_id ` set (take k fs) \<or> \<not> deletable s (f_id d))
                          (files s)
           \<and> (k < length fs \<longrightarrow> need \<le> of_nat (freed + sum_list (map deletedSize new)))
           \<and> below_at_each need freed new"
  using assms
proof (induction fs arbitrary: s freed dl)
  case Nil
  then show ?case
    by (intro exI [of _ 0] exI [of _ "[]"] exI [of _ s]) (simp add: below_at_each_Nil)
next
  case (Cons f fs)
  show ?case
  proof (cases "of_nat freed \<ge> need")
    case True
    with Cons.prems show ?thesis
      by (intro exI [of _ 0] exI [of _ "[]"] exI [of _ s]) (simp add: below_at_each_Nil)
  next
    case False
    from cleanup_loop_step [OF Cons.prems False, of f fs dl] obtain s1 dnew where
      step: "cleanup_loop s (f # fs) need freed dl
               = cleanup_loop s1 fs need (freed + sum_list (map deletedSize dnew)) (dl @ dnew)"
      and r1: "reachable s1" and df1: "delete_fails s1 = delete_fails s"
      and fs1: "files s1 = filter (\<lambda>d. f_id d \<noteq> f_id f \<or> \<not> deletable s (f_id f)) (files s)"
      and id1: "map fileId dnew = filter (deletable s) [f_id f]"
      by (elim exE conjE) (rule that, assumption+)
    from Cons.IH [OF r1, of "freed + sum_list (map deletedSize dnew)" "dl @ dnew"]
    obtain k new s' where
      k: "k \<le> length fs"
      and run: "cleanup_loop s1 fs need (freed + sum_list (map deletedSize dnew)) (dl @ dnew)
                  = (s', freed + sum_list (map deletedSize dnew) + sum_list (map deletedSize new),
                     (dl @ dnew) @ new)"
      and ids: "map fileId new = filter (deletable s1) (map f_id (take k fs))"
      and r': "reachable s'" and df': "delete_fails s' = delete_fails s1"
      and fs': "files s' = filter (\<lambda>d. f_id d \<notin> f_id ` set (take k fs) \<or> \<not> deletable s1 (f_id d))
                            (files s1)"
      and stop: "k < length fs \<longrightarrow>
                   need \<le> of_nat (freed + sum_list (map deletedSize dnew)
                                    + sum_list (map deletedSize new))"
      and below: "below_at_each need (freed + sum_list (map deletedSize dnew)) new"
      by (elim exE conjE) (rule that, assumption+)
    have del_eq: "deletable s1 = deletable s" by (simp add: fun_eq_iff deletable_def df1)
    have eq: "cleanup_loop s (f # fs) need freed dl
                = (s', freed + sum_list (map deletedSize (dnew @ new)), dl @ (dnew @ new))"
      unfolding step run by simp
    have idl: "map fileId (dnew @ new) = filter (deletable s) (map f_id (take (Suc k) (f # fs)))"
      using id1 ids by (simp add: del_eq)
    have files: "files s' = filter (\<lambda>d. f_id d \<notin> f_id ` set (take (Suc k) (f # fs))
                                      \<or> \<not> deletable s (f_id d)) (files s)"
      unfolding fs' fs1 filter_filter del_eq by (rule filter_cong) auto
    have "length dnew \<le> 1"
    proof -
      have "length dnew = length (map fileId dnew)" by simp
      also have "\<dots> \<le> 1" unfolding id1 by simp
      finally show ?thesis .
    qed
    with False have "below_at_each need freed dnew" by (rule below_at_each_single)
    then have below': "below_at_each need freed (dnew @ new)"
      using below by (rule below_at_each_append)
    have stop': "Suc k < length (f # fs) \<longrightarrow>
                   need \<le> of_nat (freed + sum_list (map deletedSize (dnew @ new)))"
      using stop by (simp add: add.assoc)
    have k': "Suc k \<le> length (f # fs)" using k by simp
    show ?thesis
      using k' eq idl r' df' df1 files stop' below'
      by (intro exI [of _ "Suc k"] exI [of _ "dnew @ new"] exI [of _ s'])
         (simp del: cleanup_loop.simps)
  qed
qed


lemma candidate_ids_set:
  "candidate_ids t s = f_id ` {f \<in> set (files s). is_candidate t f}"
  by (auto simp: candidate_ids_def)

lemma completed_ids_set:
  "completed_ids s = f_id ` {f \<in> set (files s). status f = Completed}"
  by (auto simp: completed_ids_def)

lemma candidate_not_completed:
  assumes "distinct (map f_id (files s))"
  shows "candidate_ids t s \<inter> completed_ids s = {}"
proof -
  have inj: "inj_on f_id (set (files s))" using assms by (simp add: distinct_map)
  show ?thesis
  proof (rule ccontr)
    assume "candidate_ids t s \<inter> completed_ids s \<noteq> {}"
    then obtain f g where f: "f \<in> set (files s)" "is_candidate t f"
      and g: "g \<in> set (files s)" "status g = Completed" and eq: "f_id f = f_id g"
      by (auto simp: candidate_ids_set completed_ids_set)
    from inj eq f(1) g(1) have "f = g" by (rule inj_onD)
    with f(2) g(2) show False by (auto simp: is_candidate_def)
  qed
qed

lemma filter_filter_implied:
  assumes "\<And>x. x \<in> set xs \<Longrightarrow> P x \<Longrightarrow> Q x"
  shows "filter P (filter Q xs) = filter P xs"
  unfolding filter_filter using assms by (intro filter_cong) auto

lemma cleanup_phases:
  assumes r: "reachable s" and dist: "distinct (map f_id (files s))"
  shows "\<exists>s1 s2 pre post k1 k2.
           phase1 s t need = Inr (s1, sum_list (map deletedSize pre), pre)
           \<and> phase2 s1 need (sum_list (map deletedSize pre)) pre
               = Inr (s2, sum_list (map deletedSize (pre @ post)), pre @ post)
           \<and> reachable s2
           \<and> k1 \<le> length (sort_key createdAt (filter (is_candidate t) (files s)))
           \<and> k2 \<le> length (take 100 (sort_key createdAt (filter (\<lambda>f. status f = Completed) (files s))))
           \<and> map fileId pre
               = filter (deletable s) (map f_id (take k1
                   (sort_key createdAt (filter (is_candidate t) (files s)))))
           \<and> map fileId post
               = filter (deletable s) (map f_id (take k2
                   (take 100 (sort_key createdAt (filter (\<lambda>f. status f = Completed) (files s))))))
           \<and> (0 < k2 \<longrightarrow> k1 = length (sort_key createdAt (filter (is_candidate t) (files s))))
           \<and> (k1 < length (sort_key createdAt (filter (is_candidate t) (files s))) \<longrightarrow>
                need \<le> of_nat (sum_list (map deletedSize pre)))
           \<and> (k2 < length (take 100 (sort_key createdAt
                               (filter (\<lambda>f. status f = Completed) (files s)))) \<longrightarrow>
                need \<le> of_nat (sum_list (map deletedSize (pre @ post))))
           \<and> files s2 = filter (\<lambda>d. f_id d \<notin> fileId ` set (pre @ post)) (files s)
           \<and> below_at_each need 0 (pre @ post)"
proof -
  let ?cands = "sort_key createdAt (filter (is_candidate t) (files s))"
  let ?olds = "take 100 (sort_key createdAt (filter (\<lambda>f. status f = Completed) (files s)))"
  from cleanup_loop_spec [OF r, of ?cands need 0 "[]"] obtain k1 new1 s1 where
    k1: "k1 \<le> length ?cands"
    and run1: "cleanup_loop s ?cands need 0 [] = (s1, 0 + sum_list (map deletedSize new1), [] @ new1)"
    and ids1: "map fileId new1 = filter (deletable s) (map f_id (take k1 ?cands))"
    and r1: "reachable s1" and df1: "delete_fails s1 = delete_fails s"
    and fs1: "files s1 = filter (\<lambda>d. f_id d \<notin> f_id ` set (take k1 ?cands) \<or> \<not> deletable s (f_id d))
                           (files s)"
    and stop1: "k1 < length ?cands \<longrightarrow> need \<le> of_nat (0 + sum_list (map deletedSize new1))"
    and below1: "below_at_each need 0 new1"
    by (elim exE conjE) (rule that, assumption+)
  let ?f1 = "sum_list (map deletedSize new1)"
  have stop1': "k1 < length ?cands \<longrightarrow> need \<le> of_nat ?f1" using stop1 by simp
  have p1: "phase1 s t need = Inr (s1, ?f1, new1)"
    using r run1 by (simp add: phase1_def getCleanupCandidates_def File_find_def)
  have img1: "fileId ` set new1 = {i \<in> f_id ` set (take k1 ?cands). deletable s i}"
  proof -
    have "fileId ` set new1 = set (map fileId new1)" by simp
    also have "\<dots> = {i \<in> f_id ` set (take k1 ?cands). deletable s i}"
      unfolding ids1 by auto
    finally show ?thesis .
  qed
  have files1: "files s1 = filter (\<lambda>d. f_id d \<notin> fileId ` set new1) (files s)"
    unfolding fs1 img1 by (rule filter_cong) auto
  have cand_sub: "f_id ` set (take k1 ?cands) \<subseteq> candidate_ids t s"
  proof -
    have "set (take k1 ?cands) \<subseteq> set ?cands" by (rule set_take_subset)
    then have "f_id ` set (take k1 ?cands) \<subseteq> f_id ` set ?cands" by (rule image_mono)
    then show ?thesis by (simp add: candidate_ids_def)
  qed
  have keep: "filter (\<lambda>f. status f = Completed) (files s1)
                = filter (\<lambda>f. status f = Completed) (files s)"
    unfolding fs1
  proof (rule filter_filter_implied)
    fix d assume d: "d \<in> set (files s)" and c: "status d = Completed"
    then have "f_id d \<in> completed_ids s" by (auto simp: completed_ids_set)
    with candidate_not_completed [OF dist, of t] cand_sub
    have "f_id d \<notin> f_id ` set (take k1 ?cands)" by blast
    then show "f_id d \<notin> f_id ` set (take k1 ?cands) \<or> \<not> deletable s (f_id d)" by simp
  qed
  have del_eq: "deletable s1 = deletable s" by (simp add: fun_eq_iff deletable_def df1)
  show ?thesis
  proof (cases "of_nat ?f1 < need")
    case False
    then have p2: "phase2 s1 need ?f1 new1 = Inr (s1, sum_list (map deletedSize (new1 @ [])), new1 @ [])"
      by (simp add: phase2_def)
    have ids2: "map fileId [] = filter (deletable s) (map f_id (take 0 ?olds))" by simp
    have k2: "0 \<le> length ?olds" by simp
    have full: "(0::nat) < 0 \<longrightarrow> k1 = length ?cands" by simp
    have stop2: "0 < length ?olds \<longrightarrow> need \<le> of_nat (sum_list (map deletedSize (new1 @ [])))"
      using False by simp
    have files2: "files s1 = filter (\<lambda>d. f_id d \<notin> fileId ` set (new1 @ [])) (files s)"
      using files1 by simp
    have below: "below_at_each need 0 (new1 @ [])" using below1 by simp
    show ?thesis
      using p1 p2 r1 k1 k2 ids1 ids2 full stop1' stop2 files2 below
      by (intro exI [of _ s1] exI [of _ s1] exI [of _ new1] exI [of _ "[]"]
            exI [of _ k1] exI [of _ 0] conjI) assumption+
  next
    case True
    with stop1' k1 have full: "k1 = length ?cands" by auto
    from cleanup_loop_spec [OF r1, of ?olds need ?f1 new1] obtain k2 new2 s2 where
      k2: "k2 \<le> length ?olds"
      and run2: "cleanup_loop s1 ?olds need ?f1 new1
                  = (s2, ?f1 + sum_list (map deletedSize new2), new1 @ new2)"
      and ids2: "map fileId new2 = filter (deletable s1) (map f_id (take k2 ?olds))"
      and r2: "reachable s2" and "delete_fails s2 = delete_fails s1"
      and fs2: "files s2 = filter (\<lambda>d. f_id d \<notin> f_id ` set (take k2 ?olds) \<or> \<not> deletable s1 (f_id d))
                             (files s1)"
      and stop2: "k2 < length ?olds \<longrightarrow> need \<le> of_nat (?f1 + sum_list (map deletedSize new2))"
      and below2: "below_at_each need ?f1 new2"
      by (elim exE conjE) (rule that, assumption+)
    have total: "?f1 + sum_list (map deletedSize new2) = sum_list (map deletedSize (new1 @ new2))"
      by simp
    have p2: "phase2 s1 need ?f1 new1
                = Inr (s2, sum_list (map deletedSize (new1 @ new2)), new1 @ new2)"
      using True r1 run2 unfolding total by (simp add: phase2_def File_find_def Let_def keep)
    have img2: "fileId ` set new2 = {i \<in> f_id ` set (take k2 ?olds). deletable s i}"
    proof -
      have "fileId ` set new2 = set (map fileId new2)" by simp
      also have "\<dots> = {i \<in> f_id ` set (take k2 ?olds). deletable s i}"
        unfolding ids2 del_eq by auto
      finally show ?thesis .
    qed
    have "files s2 = filter (\<lambda>d. f_id d \<notin> fileId ` set new2) (files s1)"
      unfolding fs2 img2 del_eq by (rule filter_cong) auto
    also have "\<dots> = filter (\<lambda>d. f_id d \<notin> fileId ` set (new1 @ new2)) (files s)"
      unfolding files1 filter_filter by (rule filter_cong) (simp_all add: image_Un)
    finally have files2: "files s2 = filter (\<lambda>d. f_id d \<notin> fileId ` set (new1 @ new2)) (files s)" .
    have below: "below_at_each need 0 (new1 @ new2)"
      using below1 below2 by (intro below_at_each_append) simp_all
    have ids2': "map fileId new2 = filter (deletable s) (map f_id (take k2 ?olds))"
      using ids2 by (simp only: del_eq)
    have full': "0 < k2 \<longrightarrow> k1 = length ?cands" using full by simp
    have stop2': "k2 < length ?olds \<longrightarrow> need \<le> of_nat (sum_list (map deletedSize (new1 @ new2)))"
      using stop2 unfolding total .
    show ?thesis
      using p1 p2 r2 k1 k2 ids1 ids2' full' stop1' stop2' files2 below
      by (intro exI [of _ s1] exI [of _ s2] exI [of _ new1] exI [of _ new2]
            exI [of _ k1] exI [of _ k2] conjI) assumption+
  qed
qed

text \<open>
  C1 as stated fails on a run in which the deletion of a candidate throws. On the store
  whose record store rejects the deletion of the failed document 8, a cleanup down to 0 per
  cent has 150 bytes to free. Phase 1 attempts document 8, the deletion throws and is
  skipped; Phase 2 then deletes the completed document 7. The run returns with document 7
  deleted, the candidate 8 still in the store and 60 of 150 bytes freed.
\<close>

theorem performAutoCleanup_completed_before_candidate:
  "\<not> isl stuck_run
   \<and> map fileId (c_deletedFiles (fst (projr stuck_run))) = [7]
   \<and> files (snd (projr stuck_run)) = [failed_doc]
   \<and> freedSize (fst (projr stuck_run)) = Some 60
   \<and> f_id example_doc = 7 \<and> status example_doc = Completed
   \<and> example_doc \<in> set (files stuck_example)
   \<and> is_candidate 0 failed_doc \<and> failed_doc \<in> set (files stuck_example)
   \<and> (60 :: rat) < bytes_to_free STORAGE_LIMITS stuck_example (Some 0)"
  by (simp add: stuck_run_def performAutoCleanup_def phase1_def phase2_def
      getCleanupCandidates_def File_find_def is_candidate_def sort_key_def
      stuck_example_def two_docs_example_def example_doc_def failed_doc_def
      deleteFileCompletely_def delete_input_def deleteFromGridFS_def deleteOne_def
      getStorageStats_def bucket_find_def STORAGE_LIMITS_def bytes_to_free_def Let_def)


lemma performAutoCleanup_early:
  assumes "reachable s" and "bytes_to_free L s target \<le> 0"
  shows "\<exists>res. performAutoCleanup L s t target = Inr (res, s) \<and> c_deletedFiles res = []"
  using assms
  by (simp add: performAutoCleanup_def getStorageStats_def bucket_find_def Let_def
      bytes_to_free_def)

lemma performAutoCleanup_phases:
  assumes "reachable s" and "\<not> bytes_to_free L s target \<le> 0"
    and "phase1 s t (bytes_to_free L s target) = Inr (s1, freed1, dl1)"
    and "phase2 s1 (bytes_to_free L s target) freed1 dl1 = Inr (s2, freed2, dl2)"
    and "reachable s2"
  shows "\<exists>res. performAutoCleanup L s t target = Inr (res, s2) \<and> c_deletedFiles res = dl2
           \<and> freedSize res = Some freed2"
  using assms
  by (simp add: performAutoCleanup_def getStorageStats_def bucket_find_def Let_def
      bytes_to_free_def)

text \<open>
  C1, amended. On a reachable store whose documents have distinct ids,
  \<open>performAutoCleanup\<close> returns, and with \<open>deletedFiles\<close> read in the order of deletion:
  every deletion happens while the bytes freed so far are below the bytes to free;
  whenever the document deleted at a position is a completed one, every candidate (failed,
  uploaded and created before \<open>thirtyDaysAgo\<close>, or processing and started before it)
  whose deletion the record store accepts has been deleted at an earlier position, so the
  only candidates still in the store are those whose deletion threw and was skipped; the
  documents gone from the store are exactly the listed ones. The list is a first part
  followed by a second part: the first part is, for some \<open>k1\<close>, the first \<open>k1\<close> candidates in
  ascending \<open>createdAt\<close>, and the second, for some \<open>k2\<close>, the first \<open>k2\<close> of the hundred
  oldest completed documents in ascending \<open>createdAt\<close>, each without the documents whose
  deletion threw. \<open>k2\<close> is 0 unless \<open>k1\<close> counts all candidates; the first part stops short
  of the last candidate only when its freed bytes meet the bytes to free, and the second
  stops short of the last of the hundred only when the freed bytes of the whole list do.
\<close>

theorem performAutoCleanup_candidates_attempted_first:
  assumes "reachable s" and "distinct (map f_id (files s))"
  shows "\<exists>res s'. performAutoCleanup L s t target = Inr (res, s')
           \<and> (\<forall>k < length (c_deletedFiles res).
                 of_nat (sum_list (map deletedSize (take k (c_deletedFiles res))))
                   < bytes_to_free L s target)
           \<and> (\<forall>k < length (c_deletedFiles res).
                 fileId (c_deletedFiles res ! k) \<in> completed_ids s \<longrightarrow>
                 candidate_ids t s - set (delete_fails s)
                   \<subseteq> fileId ` set (take k (c_deletedFiles res)))
           \<and> files s' = filter (\<lambda>d. f_id d \<notin> fileId ` set (c_deletedFiles res)) (files s)
           \<and> (\<exists>pre post k1 k2.
                 c_deletedFiles res = pre @ post
                 \<and> k1 \<le> length (sort_key createdAt (filter (is_candidate t) (files s)))
                 \<and> k2 \<le> length (take 100 (sort_key createdAt
                                (filter (\<lambda>f. status f = Completed) (files s))))
                 \<and> map fileId pre
                     = filter (deletable s) (map f_id (take k1
                         (sort_key createdAt (filter (is_candidate t) (files s)))))
                 \<and> map fileId post
                     = filter (deletable s) (map f_id (take k2
                         (take 100 (sort_key createdAt
                            (filter (\<lambda>f. status f = Completed) (files s))))))
                 \<and> (0 < k2 \<longrightarrow>
                      k1 = length (sort_key createdAt (filter (is_candidate t) (files s))))
                 \<and> (k1 < length (sort_key createdAt (filter (is_candidate t) (files s))) \<longrightarrow>
                      bytes_to_free L s target \<le> of_nat (sum_list (map deletedSize pre)))
                 \<and> (k2 < length (take 100 (sort_key createdAt
                                     (filter (\<lambda>f. status f = Completed) (files s)))) \<longrightarrow>
                      bytes_to_free L s target
                        \<le> of_nat (sum_list (map deletedSize (c_deletedFiles res)))))"
proof -
  let ?need = "bytes_to_free L s target"
  let ?cands = "sort_key createdAt (filter (is_candidate t) (files s))"
  let ?olds = "take 100 (sort_key createdAt (filter (\<lambda>f. status f = Completed) (files s)))"
  have struct: "\<exists>res s' pre post k1 k2. performAutoCleanup L s t target = Inr (res, s')
           \<and> c_deletedFiles res = pre @ post
           \<and> k1 \<le> length ?cands \<and> k2 \<le> length ?olds
           \<and> map fileId pre = filter (deletable s) (map f_id (take k1 ?cands))
           \<and> map fileId post = filter (deletable s) (map f_id (take k2 ?olds))
           \<and> (0 < k2 \<longrightarrow> k1 = length ?cands)
           \<and> (k1 < length ?cands \<longrightarrow> ?need \<le> of_nat (sum_list (map deletedSize pre)))
           \<and> (k2 < length ?olds \<longrightarrow> ?need \<le> of_nat (sum_list (map deletedSize (pre @ post))))
           \<and> files s' = filter (\<lambda>d. f_id d \<notin> fileId ` set (pre @ post)) (files s)
           \<and> below_at_each ?need 0 (pre @ post)"
  proof (cases "?need \<le> 0")
    case True
    from performAutoCleanup_early [OF assms(1) True, of t] obtain res where
      run: "performAutoCleanup L s t target = Inr (res, s)" and D: "c_deletedFiles res = [] @ []"
      by (elim exE conjE) simp
    have a: "(0::nat) \<le> length ?cands" "(0::nat) \<le> length ?olds" by simp_all
    have b: "map fileId [] = filter (deletable s) (map f_id (take 0 ?cands))"
      "map fileId [] = filter (deletable s) (map f_id (take 0 ?olds))" by simp_all
    have c: "(0::nat) < 0 \<longrightarrow> 0 = length ?cands" by simp
    have d: "0 < length ?cands \<longrightarrow> ?need \<le> of_nat (sum_list (map deletedSize []))"
      "0 < length ?olds \<longrightarrow> ?need \<le> of_nat (sum_list (map deletedSize ([] @ [])))"
      using True by simp_all
    have e: "files s = filter (\<lambda>d. f_id d \<notin> fileId ` set ([] @ [])) (files s)" by simp
    have f: "below_at_each ?need 0 ([] @ [])" by (simp add: below_at_each_Nil)
    show ?thesis
      using run D a b c d e f
      by (intro exI [of _ res] exI [of _ s] exI [of _ "[]"] exI [of _ "[]"]
            exI [of _ 0] exI [of _ 0] conjI) assumption+
  next
    case False
    from cleanup_phases [OF assms, of t ?need] obtain s1 s2 pre post k1 k2 where
      p1: "phase1 s t ?need = Inr (s1, sum_list (map deletedSize pre), pre)"
      and p2: "phase2 s1 ?need (sum_list (map deletedSize pre)) pre
                 = Inr (s2, sum_list (map deletedSize (pre @ post)), pre @ post)"
      and r2: "reachable s2"
      and k1: "k1 \<le> length ?cands" and k2: "k2 \<le> length ?olds"
      and ipre: "map fileId pre = filter (deletable s) (map f_id (take k1 ?cands))"
      and ipost: "map fileId post = filter (deletable s) (map f_id (take k2 ?olds))"
      and full: "0 < k2 \<longrightarrow> k1 = length ?cands"
      and st1: "k1 < length ?cands \<longrightarrow> ?need \<le> of_nat (sum_list (map deletedSize pre))"
      and st2: "k2 < length ?olds \<longrightarrow> ?need \<le> of_nat (sum_list (map deletedSize (pre @ post)))"
      and fs: "files s2 = filter (\<lambda>d. f_id d \<notin> fileId ` set (pre @ post)) (files s)"
      and below: "below_at_each ?need 0 (pre @ post)"
      by (elim exE conjE) (rule that, assumption+)
    from performAutoCleanup_phases [OF assms(1) False p1 p2 r2] obtain res where
      run: "performAutoCleanup L s t target = Inr (res, s2)" and D: "c_deletedFiles res = pre @ post"
      by (elim exE conjE)
    show ?thesis
      using run D k1 k2 ipre ipost full st1 st2 fs below
      by (intro exI [of _ res] exI [of _ s2] exI [of _ pre] exI [of _ post]
            exI [of _ k1] exI [of _ k2] conjI) assumption+
  qed
  then obtain res s' pre post k1 k2 where
    run: "performAutoCleanup L s t target = Inr (res, s')"
    and D: "c_deletedFiles res = pre @ post"
    and k1: "k1 \<le> length ?cands" and k2: "k2 \<le> length ?olds"
    and ipre: "map fileId pre = filter (deletable s) (map f_id (take k1 ?cands))"
    and ipost: "map fileId post = filter (deletable s) (map f_id (take k2 ?olds))"
    and full: "0 < k2 \<longrightarrow> k1 = length ?cands"
    and st1: "k1 < length ?cands \<longrightarrow> ?need \<le> of_nat (sum_list (map deletedSize pre))"
    and st2: "k2 < length ?olds \<longrightarrow> ?need \<le> of_nat (sum_list (map deletedSize (pre @ post)))"
    and fs: "files s' = filter (\<lambda>d. f_id d \<notin> fileId ` set (pre @ post)) (files s)"
    and below: "below_at_each ?need 0 (pre @ post)"
    by (elim exE conjE) (rule that, assumption+)
  let ?D = "c_deletedFiles res"
  have A: "\<forall>k < length ?D. of_nat (sum_list (map deletedSize (take k ?D))) < ?need"
    using below unfolding D by (simp add: below_at_each_def)
  have pre_ids: "fileId ` set pre = set (filter (deletable s) (map f_id (take k1 ?cands)))"
    unfolding ipre [symmetric] by simp
  have pre_sub: "fileId ` set pre \<subseteq> candidate_ids t s"
  proof -
    have "set (take k1 ?cands) \<subseteq> set ?cands" by (rule set_take_subset)
    then have "f_id ` set (take k1 ?cands) \<subseteq> f_id ` set ?cands" by (rule image_mono)
    then show ?thesis unfolding pre_ids by (auto simp: candidate_ids_def)
  qed
  have B: "\<forall>k < length ?D. fileId (?D ! k) \<in> completed_ids s \<longrightarrow>
              candidate_ids t s - set (delete_fails s) \<subseteq> fileId ` set (take k ?D)"
  proof (intro allI impI)
    fix k assume k: "k < length ?D" and c: "fileId (?D ! k) \<in> completed_ids s"
    have "\<not> k < length pre"
    proof
      assume "k < length pre"
      then have "?D ! k \<in> set pre" by (simp add: D nth_append)
      with pre_sub have "fileId (?D ! k) \<in> candidate_ids t s" by blast
      with c candidate_not_completed [OF assms(2), of t] show False by blast
    qed
    then have ge: "length pre \<le> k" by simp
    with k have "post \<noteq> []" by (auto simp: D)
    then have "map fileId post \<noteq> []" by simp
    then have "0 < k2" unfolding ipost by (cases k2) auto
    with full have k1': "k1 = length ?cands" by simp
    have "candidate_ids t s - set (delete_fails s) \<subseteq> fileId ` set pre"
      unfolding pre_ids k1' by (auto simp: candidate_ids_def deletable_def)
    also have "\<dots> \<subseteq> fileId ` set (take k ?D)"
      using ge by (simp add: D) blast
    finally show "candidate_ids t s - set (delete_fails s) \<subseteq> fileId ` set (take k ?D)" .
  qed
  have fs': "files s' = filter (\<lambda>d. f_id d \<notin> fileId ` set ?D) (files s)"
    using fs unfolding D .
  have st2': "k2 < length ?olds \<longrightarrow> ?need \<le> of_nat (sum_list (map deletedSize ?D))"
    using st2 unfolding D .
  have C: "\<exists>pre post k1 k2. ?D = pre @ post
             \<and> k1 \<le> length ?cands \<and> k2 \<le> length ?olds
             \<and> map fileId pre = filter (deletable s) (map f_id (take k1 ?cands))
             \<and> map fileId post = filter (deletable s) (map f_id (take k2 ?olds))
             \<and> (0 < k2 \<longrightarrow> k1 = length ?cands)
             \<and> (k1 < length ?cands \<longrightarrow> ?need \<le> of_nat (sum_list (map deletedSize pre)))
             \<and> (k2 < length ?olds \<longrightarrow> ?need \<le> of_nat (sum_list (map deletedSize ?D)))"
    using D k1 k2 ipre ipost full st1 st2'
    by (intro exI [of _ pre] exI [of _ post] exI [of _ k1] exI [of _ k2] conjI) assumption+
  show ?thesis
    using run A B fs' C
    by (intro exI [of _ res] exI [of _ s'] conjI) assumption+
qed

lemma stuck_run_value:
  "\<exists>res s'. performAutoCleanup STORAGE_LIMITS stuck_example 0 (Some 0) = Inr (res, s')
      \<and> map fileId (c_deletedFiles res) = [7]"
  by (simp add: performAutoCleanup_def phase1_def phase2_def
      getCleanupCandidates_def File_find_def is_candidate_def sort_key_def
      stuck_example_def two_docs_example_def example_doc_def failed_doc_def
      deleteFileCompletely_def delete_input_def deleteFromGridFS_def deleteOne_def
      getStorageStats_def bucket_find_def STORAGE_LIMITS_def Let_def)

lemma two_docs_run_value:
  "\<exists>res s'. performAutoCleanup STORAGE_LIMITS two_docs_example 0 (Some 0) = Inr (res, s')
      \<and> map fileId (c_deletedFiles res) = [8, 7]"
  by (simp add: performAutoCleanup_def phase1_def phase2_def
      getCleanupCandidates_def File_find_def is_candidate_def sort_key_def
      two_docs_example_def example_doc_def failed_doc_def
      deleteFileCompletely_def delete_input_def deleteFromGridFS_def deleteOne_def
      getStorageStats_def bucket_find_def STORAGE_LIMITS_def Let_def)

lemma example_ids:
  "candidate_ids 0 two_docs_example = {8}" "completed_ids two_docs_example = {7}"
  "candidate_ids 0 stuck_example = {8}" "completed_ids stuck_example = {7}"
  by (simp_all add: candidate_ids_def completed_ids_def stuck_example_def two_docs_example_def
      example_doc_def failed_doc_def is_candidate_def)

theorem performAutoCleanup_candidates_attempted_first_witness:
  "reachable two_docs_example \<and> distinct (map f_id (files two_docs_example))
   \<and> reachable stuck_example \<and> distinct (map f_id (files stuck_example))
   \<and> (\<exists>res s'. performAutoCleanup STORAGE_LIMITS two_docs_example 0 (Some 0) = Inr (res, s')
         \<and> map fileId (c_deletedFiles res) = [8, 7]
         \<and> candidate_ids 0 two_docs_example - set (delete_fails two_docs_example) = {8}
         \<and> candidate_ids 0 two_docs_example - set (delete_fails two_docs_example)
             \<subseteq> fileId ` set (take 1 (c_deletedFiles res))
         \<and> files s' = [])
   \<and> (\<exists>res s'. performAutoCleanup STORAGE_LIMITS stuck_example 0 (Some 0) = Inr (res, s')
         \<and> map fileId (c_deletedFiles res) = [7]
         \<and> candidate_ids 0 stuck_example - set (delete_fails stuck_example) = {}
         \<and> files s' = [failed_doc])"
proof -
  have d: "distinct (map f_id (files two_docs_example))"
    "distinct (map f_id (files stuck_example))"
    by (simp_all add: two_docs_facts stuck_facts)
  have first: "\<exists>res s'. performAutoCleanup STORAGE_LIMITS two_docs_example 0 (Some 0) = Inr (res, s')
         \<and> map fileId (c_deletedFiles res) = [8, 7]
         \<and> candidate_ids 0 two_docs_example - set (delete_fails two_docs_example) = {8}
         \<and> candidate_ids 0 two_docs_example - set (delete_fails two_docs_example)
             \<subseteq> fileId ` set (take 1 (c_deletedFiles res))
         \<and> files s' = []"
  proof -
    from performAutoCleanup_candidates_attempted_first
      [OF two_docs_facts(1) d(1), of STORAGE_LIMITS 0 "Some 0"]
    obtain res s' where
      run: "performAutoCleanup STORAGE_LIMITS two_docs_example 0 (Some 0) = Inr (res, s')"
      and B: "\<forall>k < length (c_deletedFiles res).
                 fileId (c_deletedFiles res ! k) \<in> completed_ids two_docs_example \<longrightarrow>
                 candidate_ids 0 two_docs_example - set (delete_fails two_docs_example)
                   \<subseteq> fileId ` set (take k (c_deletedFiles res))"
      and fs: "files s' = filter (\<lambda>d. f_id d \<notin> fileId ` set (c_deletedFiles res))
                            (files two_docs_example)"
      by (elim exE conjE)
    from two_docs_run_value run have D: "map fileId (c_deletedFiles res) = [8, 7]" by auto
    then have len: "length (c_deletedFiles res) = 2"
      by (metis length_map length_Cons list.size(3) numeral_2_eq_2)
    from D len have k1: "fileId (c_deletedFiles res ! 1) = 7"
      by (metis nth_map one_less_numeral_iff semiring_norm(76) nth_Cons_0 nth_Cons_Suc One_nat_def)
    from B len k1 have sub: "candidate_ids 0 two_docs_example - set (delete_fails two_docs_example)
                       \<subseteq> fileId ` set (take 1 (c_deletedFiles res))"
      by (simp add: example_ids)
    from D have img: "fileId ` set (c_deletedFiles res) = {8, 7}"
      by (metis set_map list.simps(15) empty_set)
    from fs have "files s' = []" by (simp add: img two_docs_facts)
    with run D sub show ?thesis by (simp add: example_ids two_docs_facts)
  qed
  have second: "\<exists>res s'. performAutoCleanup STORAGE_LIMITS stuck_example 0 (Some 0) = Inr (res, s')
         \<and> map fileId (c_deletedFiles res) = [7]
         \<and> candidate_ids 0 stuck_example - set (delete_fails stuck_example) = {}
         \<and> files s' = [failed_doc]"
  proof -
    from performAutoCleanup_candidates_attempted_first
      [OF stuck_facts(1) d(2), of STORAGE_LIMITS 0 "Some 0"]
    obtain res s' where
      run: "performAutoCleanup STORAGE_LIMITS stuck_example 0 (Some 0) = Inr (res, s')"
      and fs: "files s' = filter (\<lambda>d. f_id d \<notin> fileId ` set (c_deletedFiles res))
                            (files stuck_example)"
      by (elim exE conjE)
    from stuck_run_value run have D: "map fileId (c_deletedFiles res) = [7]" by auto
    then have img: "fileId ` set (c_deletedFiles res) = {7}"
      by (metis set_map list.simps(15) empty_set)
    from fs have "files s' = [failed_doc]" by (simp add: img two_docs_facts stuck_facts)
    with run D show ?thesis by (simp add: example_ids stuck_facts)
  qed
  show ?thesis using two_docs_facts(1) stuck_facts(1) d first second by simp
qed

text \<open>
  With the connection down \<open>performAutoCleanup\<close> throws before it deletes anything.
\<close>

lemma performAutoCleanup_unreachable:
  assumes "\<not> reachable s"
  shows "performAutoCleanup L s t target = Inl StoreUnavailable"
  using assms by (simp add: performAutoCleanup_def getStorageStats_def bucket_find_def)

end
